theory Spec2Isabelle
  imports Complex_Main
begin

section \<open>Python strings and slices\<close>

text \<open>
  A Python \<open>str\<close> is a sequence of Unicode code points, and \<open>len\<close> counts code points.
  The tree renderers draw with box characters outside ASCII, so a string is modelled as the
  list of its code points.
\<close>

type_synonym pystr = "nat list"

definition ascii :: "string \<Rightarrow> pystr" where
  "ascii s = map of_char s"

text \<open>The characters \<open>str.isspace\<close> accepts; \<open>str.split()\<close> and \<open>str.strip()\<close> use them.\<close>

definition py_isspace :: "nat \<Rightarrow> bool" where
  "py_isspace c \<longleftrightarrow>
     (9 \<le> c \<and> c \<le> 13) \<or> (28 \<le> c \<and> c \<le> 32) \<or> c = 133 \<or> c = 160 \<or> c = 5760 \<or>
     (8192 \<le> c \<and> c \<le> 8202) \<or> c = 8232 \<or> c = 8233 \<or> c = 8239 \<or> c = 8287 \<or> c = 12288"

text \<open>\<open>s.split()\<close>: the maximal runs of characters that are not whitespace, in order.\<close>

fun split_from :: "pystr \<Rightarrow> pystr \<Rightarrow> pystr list" where
  "split_from w [] = (if w = [] then [] else [w])"
| "split_from w (c # cs) =
     (if py_isspace c then (if w = [] then split_from [] cs else w # split_from [] cs)
      else split_from (w @ [c]) cs)"

definition py_split :: "pystr \<Rightarrow> pystr list" where
  "py_split s = split_from [] s"

text \<open>\<open>s.strip()\<close>: whitespace removed at both ends.\<close>

definition py_strip :: "pystr \<Rightarrow> pystr" where
  "py_strip s = rev (dropWhile py_isspace (rev (dropWhile py_isspace s)))"

text \<open>
  A slice bound of Python: a negative bound counts from the end, and every bound is clamped
  to the length. \<open>py_slice xs a b\<close> is \<open>xs[a:b]\<close>; \<open>None\<close> is an omitted bound.
\<close>

definition slice_bound :: "nat \<Rightarrow> int \<Rightarrow> nat" where
  "slice_bound n i = (if i < 0 then nat (int n + i) else min (nat i) n)"

definition py_slice :: "'a list \<Rightarrow> int option \<Rightarrow> int option \<Rightarrow> 'a list" where
  "py_slice xs start stop =
     (let n = length xs;
          a = (case start of None \<Rightarrow> 0 | Some i \<Rightarrow> slice_bound n i);
          b = (case stop of None \<Rightarrow> n | Some j \<Rightarrow> slice_bound n j)
      in take (b - a) (drop a xs))"

text \<open>\<open>s.find(c)\<close> and \<open>s.rfind(c)\<close> for a character that occurs in \<open>s\<close>.\<close>

definition py_find :: "pystr \<Rightarrow> nat \<Rightarrow> int" where
  "py_find s c = (if c \<in> set s then int (length (takeWhile (\<lambda>x. x \<noteq> c) s)) else - 1)"

definition py_rfind :: "pystr \<Rightarrow> nat \<Rightarrow> int" where
  "py_rfind s c =
     (if c \<in> set s then int (length s) - 1 - int (length (takeWhile (\<lambda>x. x \<noteq> c) (rev s)))
      else - 1)"

text \<open>\<open>s.count('\n')\<close>.\<close>

definition count_newlines :: "pystr \<Rightarrow> nat" where
  "count_newlines s = length (filter (\<lambda>c. c = 10) s)"

text \<open>\<open>list(dict.fromkeys(xs))\<close>: the first occurrence of every element, in order.\<close>

fun fromkeys :: "'a list \<Rightarrow> 'a list \<Rightarrow> 'a list" where
  "fromkeys acc [] = acc"
| "fromkeys acc (x # xs) = (if x \<in> set acc then fromkeys acc xs else fromkeys (acc @ [x]) xs)"

section \<open>The library functions the explorer is given\<close>

text \<open>
  \<open>json.loads\<close> yields one of these values. A number keeps its value only; no function of
  the explorer reads it.
\<close>

datatype json =
    JNull
  | JBool bool
  | JNumber real
  | JString pystr
  | JArray "json list"
  | JObject "(pystr \<times> json) list"

text \<open>
  Two functions of the Python library are taken as parameters. \<open>lower\<close> is \<open>str.lower\<close>
  (the Unicode case tables). \<open>loads\<close> is \<open>json.loads\<close> on a text that begins with
  \<open>[\<close>: by the JSON grammar it is an array, whose elements are returned, or decoding
  raises, which is \<open>None\<close>.
\<close>

record lib =
  lower :: "pystr \<Rightarrow> pystr"
  loads :: "pystr \<Rightarrow> json list option"

text \<open>\<open>str.lower\<close> on ASCII text, for evaluating the model on concrete inputs.\<close>

definition ascii_lower :: "pystr \<Rightarrow> pystr" where
  "ascii_lower s = map (\<lambda>c. if 65 \<le> c \<and> c \<le> 90 then c + 32 else c) s"

section \<open>The graph (networkx.DiGraph)\<close>

text \<open>
  The explorer uses a \<open>DiGraph\<close> through \<open>add_node\<close>, \<open>add_edge\<close>, membership,
  \<open>successors\<close>, \<open>predecessors\<close> and \<open>in_degree\<close>. networkx keeps the nodes, and the
  successors and predecessors of each node, in insertion order; adding a node or an edge
  that is present changes nothing. One list of edges in insertion order gives both orders.
  \<open>successors\<close> and \<open>predecessors\<close> raise for a node that is not in the graph; the
  explorer asks only for nodes of the graph (a root, a successor, a queue entry already
  added), so no function below has that branch.
\<close>

record digraph =
  nodes :: "pystr list"
  edges :: "(pystr \<times> pystr) list"

definition empty_graph :: digraph where
  "empty_graph = \<lparr>nodes = [], edges = []\<rparr>"

definition add_node :: "digraph \<Rightarrow> pystr \<Rightarrow> digraph" where
  "add_node g n = (if n \<in> set (nodes g) then g else g\<lparr>nodes := nodes g @ [n]\<rparr>)"

definition add_edge :: "digraph \<Rightarrow> pystr \<Rightarrow> pystr \<Rightarrow> digraph" where
  "add_edge g u v =
     (let g1 = add_node (add_node g u) v
      in if (u, v) \<in> set (edges g1) then g1 else g1\<lparr>edges := edges g1 @ [(u, v)]\<rparr>)"

definition successors :: "digraph \<Rightarrow> pystr \<Rightarrow> pystr list" where
  "successors g n = map snd (filter (\<lambda>e. fst e = n) (edges g))"

definition predecessors :: "digraph \<Rightarrow> pystr \<Rightarrow> pystr list" where
  "predecessors g n = map fst (filter (\<lambda>e. snd e = n) (edges g))"

definition in_degree :: "digraph \<Rightarrow> pystr \<Rightarrow> nat" where
  "in_degree g n = length (predecessors g n)"

text \<open>\<open>roots = [n for n in self.graph.nodes if self.graph.in_degree(n) == 0]\<close>\<close>

definition roots :: "digraph \<Rightarrow> pystr list" where
  "roots g = filter (\<lambda>n. in_degree g n = 0) (nodes g)"

section \<open>The explorer's state\<close>

text \<open>
  The fields of \<open>ConceptExplorer\<close>. \<open>seen_concepts\<close> is a Python set: a list without
  repetitions, whose order is the order of iteration. \<open>expanded\<close> is not a field of the
  class: it records, latest last, every request that passed the guard of
  \<open>get_related_concepts\<close> (each prints "Exploring concepts related to" and asks the
  backend), with its depth.
\<close>

record explorer =
  graph :: digraph
  seen_concepts :: "pystr list"
  last_added :: "pystr option"
  current_concept :: "pystr option"
  model :: pystr
  term_width :: int
  term_height :: int
  expanded :: "(pystr \<times> int) list"

text \<open>\<open>__init__\<close>, with the terminal size \<open>shutil.get_terminal_size\<close> returns.\<close>

definition init_explorer :: "pystr \<Rightarrow> int \<times> int \<Rightarrow> explorer" where
  "init_explorer m dims =
     \<lparr>graph = empty_graph, seen_concepts = [], last_added = None, current_concept = None,
      model = m, term_width = fst dims, term_height = snd dims, expanded = []\<rparr>"

section \<open>Diversity score\<close>

text \<open>The loop of \<open>_diversity_score\<close> over the existing concepts, \<open>score\<close> threaded.\<close>

fun diversity_loop :: "lib \<Rightarrow> pystr \<Rightarrow> pystr list \<Rightarrow> int \<Rightarrow> int" where
  "diversity_loop L concept [] score = score"
| "diversity_loop L concept (existing # rest) score =
     (let shared_words = set (py_split (lower L concept)) \<inter> set (py_split (lower L existing))
      in diversity_loop L concept rest (if shared_words = {} then score + 1 else score))"

definition diversity_score :: "lib \<Rightarrow> pystr \<Rightarrow> pystr list \<Rightarrow> int" where
  "diversity_score L concept existing_concepts = diversity_loop L concept existing_concepts 0"

text \<open>Two concepts share no token: their lowercase whitespace-separated word sets are disjoint.\<close>

definition shares_no_token :: "lib \<Rightarrow> pystr \<Rightarrow> pystr \<Rightarrow> bool" where
  "shares_no_token L a b \<longleftrightarrow> set (py_split (lower L a)) \<inter> set (py_split (lower L b)) = {}"

section \<open>The backend\<close>

text \<open>
  What the outside world answers during one iteration of the exploration loop:
  \<open>available_models\<close> is the list of names \<open>/api/tags\<close> returns (\<open>None\<close>: the request
  raises), \<open>generated\<close> the \<open>response\<close> text of \<open>/api/generate\<close> (\<open>None\<close>: the request
  raises), \<open>random_draw\<close> the value of \<open>random.random()\<close>, a number in \<open>[0, 1)\<close>, and
  \<open>terminal_size\<close> the columns and lines \<open>shutil.get_terminal_size\<close> reports.
\<close>

record world =
  available_models :: "pystr list option"
  generated :: "pystr option"
  random_draw :: real
  terminal_size :: "int \<times> int"

definition get_available_models :: "world \<Rightarrow> pystr list" where
  "get_available_models w = (case available_models w of None \<Rightarrow> [] | Some ms \<Rightarrow> ms)"

definition startswith :: "pystr \<Rightarrow> pystr \<Rightarrow> bool" where
  "startswith s p \<longleftrightarrow> take (length p) s = p"

definition check_model_availability :: "world \<Rightarrow> explorer \<Rightarrow> bool \<times> explorer" where
  "check_model_availability w self =
     (let available = get_available_models w
      in if available = [] then (False, self)
         else if model self \<in> set available then (True, self)
         else (case List.find (\<lambda>model_name. startswith model_name (model self @ ascii '':''))
                     available of
                 Some model_name \<Rightarrow> (True, self\<lparr>model := model_name\<rparr>)
               | None \<Rightarrow> (False, self)))"

text \<open>
  \<open>query_ollama\<close>: the text \<open>[]\<close> when the model is not available or the request raises.
  The prompt is a fixed text around the concept and the path; the answer is the world's.
\<close>

definition query_ollama :: "world \<Rightarrow> explorer \<Rightarrow> pystr \<times> pystr list \<Rightarrow> pystr \<times> explorer" where
  "query_ollama w self prompt =
     (case check_model_availability w self of
        (False, self') \<Rightarrow> (ascii ''[]'', self')
      | (True, self') \<Rightarrow>
          (case generated w of None \<Rightarrow> (ascii ''[]'', self') | Some text \<Rightarrow> (text, self')))"

section \<open>The generator gateway\<close>

text \<open>\<open>set.add\<close> on the list that stands for a set.\<close>

definition set_add :: "'a list \<Rightarrow> 'a \<Rightarrow> 'a list" where
  "set_add xs x = (if x \<in> set xs then xs else xs @ [x])"

text \<open>
  The loop over the decoded array (lines 136-145), \<open>filtered_concepts\<close> threaded. An
  element that is not a string makes \<open>len\<close>, the concatenation with the ellipsis or
  \<open>strip\<close> raise (\<open>None\<close>), whatever the elements before it were.
\<close>

fun filter_concepts :: "lib \<Rightarrow> explorer \<Rightarrow> json list \<Rightarrow> pystr list \<Rightarrow> pystr list option" where
  "filter_concepts L self [] filtered_concepts = Some filtered_concepts"
| "filter_concepts L self (JString rc # rest) filtered_concepts =
     (let rc = (if int (length rc) > term_width self div 3
                then py_slice rc None (Some (term_width self div 3 - 3)) @ ascii ''...''
                else rc)
      in if py_strip rc = [] \<or> lower L rc \<in> set (map (lower L) (seen_concepts self))
         then filter_concepts L self rest filtered_concepts
         else filter_concepts L self rest (filtered_concepts @ [rc]))"
| "filter_concepts L self (_ # rest) filtered_concepts = None"

text \<open>
  \<open>json.loads(json_str)\<close>: the slice is empty when the last \<open>]\<close> comes before the first
  \<open>[\<close>, and the empty text does not decode; any other slice begins with \<open>[\<close>.
\<close>

definition json_loads :: "lib \<Rightarrow> pystr \<Rightarrow> json list option" where
  "json_loads L json_str = (if json_str = [] then None else loads L json_str)"

text \<open>The \<open>try\<close> block of \<open>get_related_concepts\<close> (lines 129-156).\<close>

definition parse_response :: "lib \<Rightarrow> explorer \<Rightarrow> pystr \<Rightarrow> pystr list" where
  "parse_response L self response =
     (if 91 \<in> set response \<and> 93 \<in> set response then
        (let json_str = py_slice response (Some (py_find response 91))
                          (Some (py_rfind response 93 + 1))
         in case json_loads L json_str of
              None \<Rightarrow> []
            | Some related_concepts \<Rightarrow>
                (case filter_concepts L self related_concepts [] of
                   None \<Rightarrow> []
                 | Some filtered_concepts \<Rightarrow> filtered_concepts))
      else [])"

definition get_related_concepts ::
  "lib \<Rightarrow> world \<Rightarrow> explorer \<Rightarrow> pystr \<Rightarrow> int \<Rightarrow> pystr list \<Rightarrow> pystr list \<times> explorer" where
  "get_related_concepts L w self concept depth path =
     (if concept \<in> set (seen_concepts self) \<or> depth > 5 then ([], self)
      else
        (let self1 = self\<lparr>seen_concepts := set_add (seen_concepts self) concept,
                          current_concept := Some concept,
                          expanded := expanded self @ [(concept, depth)]\<rparr>;
             full_path = path @ [concept]
         in case query_ollama w self1 (concept, full_path) of
              (response, self2) \<Rightarrow> (parse_response L self2 response, self2)))"

section \<open>The exploration loop\<close>

text \<open>
  What \<open>update_live_tree\<close> leaves in the explorer: the terminal size it has read again.
  It prints the tree and changes nothing else. Every call reads the size: the call of line
  351 in the world the loop starts in, the calls of lines 364 and 386 in the world of their
  iteration, during which the size is taken not to change, and the call of line 395 in the
  world the loop ends in.
\<close>

definition update_live_tree :: "world \<Rightarrow> explorer \<Rightarrow> explorer" where
  "update_live_tree w self =
     self\<lparr>term_width := fst (terminal_size w), term_height := snd (terminal_size w)\<rparr>"

type_synonym entry = "pystr \<times> int \<times> pystr list"

text \<open>The \<open>for\<close> loop over the related concepts (lines 375-387).\<close>

fun add_related ::
  "explorer \<Rightarrow> entry list \<Rightarrow> pystr \<Rightarrow> int \<Rightarrow> pystr list \<Rightarrow> pystr list \<Rightarrow> explorer \<times> entry list" where
  "add_related self queue concept depth path [] = (self, queue)"
| "add_related self queue concept depth path (rel_concept # rest) =
     (let self1 = (if rel_concept \<notin> set (nodes (graph self))
                   then self\<lparr>graph := add_node (graph self) rel_concept,
                             last_added := Some rel_concept\<rparr>
                   else self);
          self2 = self1\<lparr>graph := add_edge (graph self1) concept rel_concept\<rparr>;
          new_path = path @ [concept]
      in add_related self2 (queue @ [(rel_concept, depth + 1, new_path)]) concept depth path rest)"

text \<open>
  One iteration of the \<open>while\<close> loop (lines 356-390) on a queue that is not empty.
  \<open>list.sort(key=...)\<close> is stable and ascending, as \<open>sort_key\<close> is.
\<close>

definition iteration ::
  "lib \<Rightarrow> int \<Rightarrow> real \<Rightarrow> world \<Rightarrow> explorer \<Rightarrow> entry \<Rightarrow> entry list \<Rightarrow> explorer \<times> entry list" where
  "iteration L max_depth diversity_bias w self e queue =
     (case e of (concept, depth, path) \<Rightarrow>
        if depth \<ge> max_depth then (self, queue)
        else
          (case get_related_concepts L w (update_live_tree w self) concept depth path of
             (related_concepts, self1) \<Rightarrow>
               (let related_concepts' =
                      (if diversity_bias > 0 \<and> related_concepts \<noteq> []
                          \<and> random_draw w < diversity_bias
                       then sort_key (\<lambda>x. diversity_score L x (seen_concepts self1))
                              related_concepts
                       else related_concepts)
                in add_related self1 queue concept depth path related_concepts')))"

text \<open>
  The \<open>while\<close> loop, one world for each iteration. It stops when the queue is empty, or
  when the worlds given are used up: the result is then the state after that many
  iterations.
\<close>

fun web_loop ::
  "lib \<Rightarrow> int \<Rightarrow> real \<Rightarrow> world list \<Rightarrow> explorer \<times> entry list \<Rightarrow> explorer \<times> entry list" where
  "web_loop L max_depth diversity_bias ws (self, []) = (self, [])"
| "web_loop L max_depth diversity_bias [] (self, e # queue) = (self, e # queue)"
| "web_loop L max_depth diversity_bias (w # ws) (self, e # queue) =
     web_loop L max_depth diversity_bias ws (iteration L max_depth diversity_bias w self e queue)"

text \<open>The state in which the loop starts (lines 350-353), \<open>w0\<close> the world at that time.\<close>

definition start :: "world \<Rightarrow> explorer \<Rightarrow> pystr \<Rightarrow> explorer \<times> entry list" where
  "start w0 self root_concept =
     (update_live_tree w0 (self\<lparr>graph := add_node (graph self) root_concept\<rparr>),
      [(root_concept, 0, [])])"

text \<open>
  \<open>build_concept_web\<close>, with the world \<open>w0\<close> it starts in, the worlds \<open>ws\<close> of the
  iterations and the world \<open>w1\<close> it ends in (lines 393-395): \<open>None\<close> when the loop has
  not come to its end within the worlds given.
\<close>

definition build_concept_web ::
  "lib \<Rightarrow> world \<Rightarrow> world list \<Rightarrow> world \<Rightarrow> explorer \<Rightarrow> pystr \<Rightarrow> int \<Rightarrow> real
     \<Rightarrow> explorer option" where
  "build_concept_web L w0 ws w1 self root_concept max_depth diversity_bias =
     (case web_loop L max_depth diversity_bias ws (start w0 self root_concept) of
        (self', []) \<Rightarrow>
          Some (update_live_tree w1 (self'\<lparr>current_concept := None, last_added := None\<rparr>))
      | (self', _ # _) \<Rightarrow> None)"

section \<open>The bounded tree renderer\<close>

text \<open>The escape sequences of colorama.\<close>

definition csi :: "string \<Rightarrow> pystr" where
  "csi code = [27] @ ascii ''['' @ ascii code @ ascii ''m''"

definition Fore_BLACK :: pystr where "Fore_BLACK = csi ''30''"
definition Fore_RED :: pystr where "Fore_RED = csi ''31''"
definition Fore_GREEN :: pystr where "Fore_GREEN = csi ''32''"
definition Fore_YELLOW :: pystr where "Fore_YELLOW = csi ''33''"
definition Fore_BLUE :: pystr where "Fore_BLUE = csi ''34''"
definition Fore_MAGENTA :: pystr where "Fore_MAGENTA = csi ''35''"
definition Fore_CYAN :: pystr where "Fore_CYAN = csi ''36''"
definition Fore_WHITE :: pystr where "Fore_WHITE = csi ''37''"
definition Back_GREEN :: pystr where "Back_GREEN = csi ''42''"
definition Back_BLUE :: pystr where "Back_BLUE = csi ''44''"
definition Style_BRIGHT :: pystr where "Style_BRIGHT = csi ''1''"
definition Style_RESET_ALL :: pystr where "Style_RESET_ALL = csi ''0''"

text \<open>The box-drawing texts: the two connectors and the two continuations of a prefix.\<close>

definition connector :: "bool \<Rightarrow> pystr" where
  "connector is_last = (if is_last then [9492, 9472, 9472, 32] else [9500, 9472, 9472, 32])"

definition extend_prefix :: "pystr \<Rightarrow> bool \<Rightarrow> pystr" where
  "extend_prefix prefix is_last = prefix @ (if is_last then ascii ''    '' else [9474, 32, 32, 32])"

text \<open>\<open>colors[min(current_depth, len(colors)-1)]\<close>, the colour of a node by its depth.\<close>

definition depth_color :: "nat \<Rightarrow> pystr" where
  "depth_color current_depth =
     (let colors = [Fore_YELLOW, Fore_GREEN, Fore_BLUE, Fore_MAGENTA, Fore_RED, Fore_WHITE]
      in colors ! min current_depth (length colors - 1))"

definition color_node :: "explorer \<Rightarrow> pystr \<Rightarrow> pystr \<Rightarrow> bool \<Rightarrow> nat \<Rightarrow> pystr" where
  "color_node self node prefix is_last current_depth =
     (let available_width = term_width self - int (length prefix)
                              - int (length (connector is_last)) - 5;
          node' = (if int (length node) > available_width
                   then py_slice node None (Some (available_width - 3)) @ ascii ''...''
                   else node)
      in if Some node' = current_concept self then
           prefix @ Fore_CYAN @ connector is_last @ Back_BLUE @ Fore_WHITE @ node'
             @ Style_RESET_ALL
         else if Some node' = last_added self then
           prefix @ Fore_CYAN @ connector is_last @ Back_GREEN @ Fore_BLACK @ node'
             @ Style_RESET_ALL
         else if current_depth = 0 then
           prefix @ Fore_CYAN @ connector is_last @ Fore_MAGENTA @ Style_BRIGHT @ node'
             @ Style_RESET_ALL
         else
           prefix @ Fore_CYAN @ connector is_last @ depth_color current_depth @ node'
             @ Style_RESET_ALL)"

text \<open>
  \<open>children.sort(key=lambda x: x not in focus_paths)\<close>, done when \<open>focus_paths\<close> is not
  empty: a stable sort on a Boolean key, \<open>False\<close> first.
\<close>

definition order_children :: "pystr list \<Rightarrow> pystr list \<Rightarrow> pystr list" where
  "order_children focus_paths children =
     (if focus_paths \<noteq> [] then sort_key (\<lambda>x. x \<notin> set focus_paths) children else children)"

text \<open>The sample of the children off the focus path (lines 294-309).\<close>

definition sample_non_focus :: "pystr list \<Rightarrow> int \<Rightarrow> pystr list" where
  "sample_non_focus non_focus sample_size =
     (if sample_size > 0 then
        (if int (length non_focus) \<le> sample_size then non_focus
         else
           (let third = max 1 (sample_size div 3);
                half = int (length non_focus) div 2;
                sampled = py_slice non_focus None (Some third)
                          @ py_slice non_focus (Some (half - third div 2))
                              (Some (half + third div 2))
                          @ py_slice non_focus (Some (- third)) None
            in py_slice (fromkeys [] sampled) None (Some sample_size)))
      else [])"

text \<open>
  The choice of the children to draw (lines 284-318): the children kept, and \<open>has_more\<close>.
\<close>

definition limit_children :: "pystr list \<Rightarrow> int \<Rightarrow> pystr list \<Rightarrow> pystr list \<times> bool" where
  "limit_children focus_paths remaining_height children =
     (if int (length children) > remaining_height then
        (let focus_children = filter (\<lambda>c. c \<in> set focus_paths) children;
             non_focus = filter (\<lambda>c. c \<notin> set focus_paths) children
         in if int (length focus_children) < remaining_height then
              (let sample_size = remaining_height - int (length focus_children) - 1;
                   sampled = sample_non_focus non_focus sample_size;
                   children' = focus_children @ sampled
               in (children', length focus_children + length non_focus > length children'))
            else
              (let children' = py_slice focus_children None (Some (remaining_height - 1))
               in (children', length focus_children > length children' \<or> non_focus \<noteq> [])))
      else (children, False))"

definition more_line :: "pystr \<Rightarrow> bool \<Rightarrow> pystr" where
  "more_line prefix is_last =
     prefix @ Fore_CYAN @ connector is_last @ Fore_RED @ ascii ''(...more...)''
       @ Style_RESET_ALL @ [10]"

definition more_nodes_line :: "pystr \<Rightarrow> pystr" where
  "more_nodes_line next_prefix =
     next_prefix @ Fore_CYAN @ connector True @ Fore_RED @ ascii ''(...more nodes...)''
       @ Style_RESET_ALL @ [10]"

definition beyond :: "int option \<Rightarrow> nat \<Rightarrow> bool" where
  "beyond max_depth current_depth =
     (case max_depth of None \<Rightarrow> False | Some m \<Rightarrow> int current_depth > m)"

subsection \<open>Facts for the termination of the renderers\<close>

lemma set_fromkeys: "set (fromkeys acc xs) = set acc \<union> set xs"
  by (induction xs arbitrary: acc) auto

lemma set_py_slice: "set (py_slice xs a b) \<subseteq> set xs"
  unfolding py_slice_def Let_def
  by (meson set_take_subset set_drop_subset subset_trans)

lemma set_sample_non_focus: "set (sample_non_focus xs n) \<subseteq> set xs"
proof (cases "n > 0 \<and> \<not> int (length xs) \<le> n")
  case True
  define third where "third = max 1 (n div 3)"
  define half where "half = int (length xs) div 2"
  define ys where "ys = py_slice xs None (Some third)
      @ py_slice xs (Some (half - third div 2)) (Some (half + third div 2))
      @ py_slice xs (Some (- third)) None"
  have ys: "set ys \<subseteq> set xs"
    unfolding ys_def using set_py_slice [of xs] by (simp del: set_filter)
  have "set (py_slice (fromkeys [] ys) None (Some n)) \<subseteq> set (fromkeys [] ys)"
    by (rule set_py_slice)
  also have "\<dots> = set ys" by (simp add: set_fromkeys)
  finally have "set (py_slice (fromkeys [] ys) None (Some n)) \<subseteq> set xs"
    using ys by (rule subset_trans)
  moreover have "sample_non_focus xs n = py_slice (fromkeys [] ys) None (Some n)"
    using True by (simp add: sample_non_focus_def Let_def ys_def third_def half_def)
  ultimately show ?thesis by simp
next
  case False
  then show ?thesis by (auto simp: sample_non_focus_def)
qed

lemma set_limit_children: "set (fst (limit_children fp r cs)) \<subseteq> set cs"
proof -
  have a: "set (sample_non_focus (filter (\<lambda>c. c \<notin> set fp) cs) n) \<subseteq> set cs" for n
    using set_sample_non_focus [of "filter (\<lambda>c. c \<notin> set fp) cs" n] by auto
  have b: "set (py_slice (filter (\<lambda>c. c \<in> set fp) cs) x y) \<subseteq> set cs" for x y
    using set_py_slice [of "filter (\<lambda>c. c \<in> set fp) cs" x y] by auto
  show ?thesis
    using a b by (auto simp: limit_children_def Let_def)
qed

lemma set_order_children: "set (order_children fp cs) = set cs"
  by (simp add: order_children_def)

lemma set_successors: "set (successors g n) \<subseteq> snd ` set (edges g)"
  by (auto simp: successors_def)

definition unvisited :: "digraph \<Rightarrow> pystr set \<Rightarrow> pystr set \<Rightarrow> nat" where
  "unvisited g extra visited = card ((snd ` set (edges g) \<union> extra) - visited)"

lemma unvisited_mono:
  "finite extra' \<Longrightarrow> extra \<subseteq> extra' \<Longrightarrow> unvisited g extra visited \<le> unvisited g extra' visited"
  unfolding unvisited_def by (intro card_mono) auto

lemma unvisited_insert:
  assumes "finite extra" "extra \<subseteq> snd ` set (edges g)" "node \<notin> visited"
  shows "unvisited g extra (insert node visited) < unvisited g {node} visited"
proof -
  have "(snd ` set (edges g) \<union> extra) - insert node visited
          \<subset> (snd ` set (edges g) \<union> {node}) - visited"
    using assms by auto
  then show ?thesis
    unfolding unvisited_def by (intro psubset_card_mono) auto
qed

subsection \<open>The recursive emitter\<close>

text \<open>
  \<open>_generate_ascii_tree\<close> and its loop over the children (lines 320-340), which threads
  \<open>result\<close> and \<open>lines_used\<close> and stops when the height is used up. \<open>is_last_child\<close> is
  \<open>i == len(children) - 1 and not has_more\<close>: no child is left and \<open>has_more\<close> is false.
  \<open>visited\<close> is a set; each child gets the copy with the node added.
\<close>

function generate_ascii_tree ::
  "explorer \<Rightarrow> pystr \<Rightarrow> pystr \<Rightarrow> bool \<Rightarrow> pystr set \<Rightarrow> pystr list \<Rightarrow> int option \<Rightarrow> nat
     \<Rightarrow> int \<Rightarrow> nat \<Rightarrow> pystr"
and draw_children ::
  "explorer \<Rightarrow> pystr list \<Rightarrow> bool \<Rightarrow> pystr \<Rightarrow> pystr set \<Rightarrow> pystr list \<Rightarrow> int option \<Rightarrow> nat
     \<Rightarrow> int \<Rightarrow> pystr \<Rightarrow> nat \<Rightarrow> pystr \<times> nat"
where
  "generate_ascii_tree self node prefix is_last visited focus_paths max_depth current_depth
       available_height lines_used =
     (if int lines_used \<ge> available_height then more_line prefix is_last
      else if node \<in> visited \<or> beyond max_depth current_depth then
        color_node self node prefix is_last current_depth @ ascii '' '' @ Fore_RED
          @ ascii ''(...)'' @ Style_RESET_ALL @ [10]
      else
        (let result = color_node self node prefix is_last current_depth @ [10];
             children = successors (graph self) node
         in if children = [] \<or> int (lines_used + 1) \<ge> available_height then result
            else
              (let next_prefix = extend_prefix prefix is_last;
                   kept = limit_children focus_paths (available_height - int (lines_used + 1))
                            (order_children focus_paths children);
                   drawn = draw_children self (fst kept) (snd kept) next_prefix
                             (insert node visited) focus_paths max_depth current_depth
                             available_height result (lines_used + 1)
               in if snd kept \<and> int (snd drawn) < available_height
                  then fst drawn @ more_nodes_line next_prefix
                  else fst drawn)))"
| "draw_children self [] has_more next_prefix visited focus_paths max_depth current_depth
       available_height result lines_used = (result, lines_used)"
| "draw_children self (child # rest) has_more next_prefix visited focus_paths max_depth
       current_depth available_height result lines_used =
     (let child_tree = generate_ascii_tree self child next_prefix (rest = [] \<and> \<not> has_more)
                         visited focus_paths max_depth (current_depth + 1) available_height
                         lines_used;
          lines_used' = lines_used + count_newlines child_tree
      in if int lines_used' \<ge> available_height then (result @ child_tree, lines_used')
         else draw_children self rest has_more next_prefix visited focus_paths max_depth
                current_depth available_height (result @ child_tree) lines_used')"
  by pat_completeness auto

termination
proof (relation "measures
    [\<lambda>x. case x of
           Inl (self, node, prefix, is_last, visited, rest) \<Rightarrow> unvisited (graph self) {node} visited
         | Inr (self, children, has_more, next_prefix, visited, rest) \<Rightarrow>
             unvisited (graph self) (set children) visited,
     \<lambda>x. case x of
           Inl _ \<Rightarrow> 0
         | Inr (self, children, rest) \<Rightarrow> Suc (length children)]", goal_cases)
  case 1
  then show ?case by simp
next
  case (2 self node prefix is_last visited focus_paths max_depth current_depth available_height lines_used result children next_prefix kept)
  have "set (fst kept) \<subseteq> snd ` set (edges (graph self))"
    using 2 set_limit_children set_order_children set_successors by blast
  then show ?case
    using 2 unvisited_insert [of "set (fst kept)" "graph self" node visited] by simp
next
  case (3 self child rest has_more next_prefix visited)
  have "unvisited (graph self) {child} visited \<le> unvisited (graph self) (set (child # rest)) visited"
    by (rule unvisited_mono) auto
  then show ?case by auto
next
  case (4 self child rest has_more next_prefix visited)
  have "unvisited (graph self) (set rest) visited \<le> unvisited (graph self) (set (child # rest)) visited"
    by (rule unvisited_mono) auto
  then show ?case by auto
qed

declare generate_ascii_tree.simps [simp del]

section \<open>The plain exporter\<close>

text \<open>
  \<open>_plain_ascii_tree\<close>, the function nested in \<open>export_ascii_tree\<close>, and its loop over the
  children. Every child is drawn with the same \<open>visited\<close>, the copy made for it.
\<close>

function plain_ascii_tree :: "explorer \<Rightarrow> pystr \<Rightarrow> pystr \<Rightarrow> bool \<Rightarrow> pystr set \<Rightarrow> pystr"
and plain_children :: "explorer \<Rightarrow> pystr list \<Rightarrow> pystr \<Rightarrow> pystr set \<Rightarrow> pystr \<Rightarrow> pystr"
where
  "plain_ascii_tree self node prefix is_last visited =
     (if node \<in> visited then prefix @ connector is_last @ node @ ascii '' (...)'' @ [10]
      else
        (let result = prefix @ connector is_last @ node @ [10];
             children = successors (graph self) node
         in if children = [] then result
            else plain_children self children (extend_prefix prefix is_last)
                   (insert node visited) result))"
| "plain_children self [] next_prefix visited result = result"
| "plain_children self (child # rest) next_prefix visited result =
     plain_children self rest next_prefix visited
       (result @ plain_ascii_tree self child next_prefix (rest = []) visited)"
  by pat_completeness auto
termination
proof (relation "measures
    [\<lambda>x. case x of
           Inl (self, node, prefix, is_last, visited) \<Rightarrow> unvisited (graph self) {node} visited
         | Inr (self, children, next_prefix, visited, result) \<Rightarrow>
             unvisited (graph self) (set children) visited,
     \<lambda>x. case x of
           Inl _ \<Rightarrow> 0
         | Inr (self, children, rest) \<Rightarrow> Suc (length children)]", goal_cases)
  case 1
  then show ?case by simp
next
  case (2 self node prefix is_last visited result children)
  have "set children \<subseteq> snd ` set (edges (graph self))"
    using 2 set_successors by blast
  then show ?case
    using 2 unvisited_insert [of "set children" "graph self" node visited] by simp
next
  case (3 self child rest next_prefix visited result)
  have "unvisited (graph self) (set rest) visited
      \<le> unvisited (graph self) (set (child # rest)) visited"
    and "unvisited (graph self) {child} visited
      \<le> unvisited (graph self) (set (child # rest)) visited"
    by (rule unvisited_mono; auto)+
  then show ?case by auto
next
  case (4 self child rest next_prefix visited result)
  have "unvisited (graph self) (set rest) visited
      \<le> unvisited (graph self) (set (child # rest)) visited"
    and "unvisited (graph self) {child} visited
      \<le> unvisited (graph self) (set (child # rest)) visited"
    by (rule unvisited_mono; auto)+
  then show ?case by auto
qed

declare plain_ascii_tree.simps [simp del]

text \<open>
  \<open>export_ascii_tree\<close>: the text written to the file, \<open>None\<close> when the graph has no root
  and nothing is written.
\<close>

definition export_ascii_tree :: "explorer \<Rightarrow> pystr option" where
  "export_ascii_tree self =
     (case roots (graph self) of
        [] \<Rightarrow> None
      | r # _ \<Rightarrow> Some (plain_ascii_tree self r [] True {}))"

section \<open>Predicates of the statements\<close>

text \<open>No label of the graph has a line break in it.\<close>

definition one_line_labels :: "digraph \<Rightarrow> bool" where
  "one_line_labels g \<longleftrightarrow> list_all (\<lambda>n. 10 \<notin> set n) (nodes g @ map snd (edges g))"

text \<open>
  A response is malformed when it has no \<open>[\<close> or no \<open>]\<close>, or when the text from the
  first \<open>[\<close> to the last \<open>]\<close> does not decode, or decodes to an array with an element
  that is not a string.
\<close>

fun is_string :: "json \<Rightarrow> bool" where
  "is_string (JString s) = True"
| "is_string _ = False"

definition bracketed :: "pystr \<Rightarrow> pystr" where
  "bracketed response =
     py_slice response (Some (py_find response 91)) (Some (py_rfind response 93 + 1))"

definition malformed :: "lib \<Rightarrow> pystr \<Rightarrow> bool" where
  "malformed L response \<longleftrightarrow>
     91 \<notin> set response \<or> 93 \<notin> set response \<or>
     (case json_loads L (bracketed response) of
        None \<Rightarrow> True
      | Some items \<Rightarrow> \<not> list_all is_string items)"

text \<open>
  Two invariants of the exploration loop. Every edge starts at a concept that is marked
  seen, and the edges have no cycle. Every request recorded is for a concept marked seen,
  no concept is recorded twice, and no recorded depth is above 5.
\<close>

definition sources_seen :: "explorer \<Rightarrow> bool" where
  "sources_seen self \<longleftrightarrow>
     fst ` set (edges (graph self)) \<subseteq> set (seen_concepts self)
     \<and> acyclic (set (edges (graph self)))"

definition expanded_once :: "explorer \<Rightarrow> bool" where
  "expanded_once self \<longleftrightarrow>
     distinct (map fst (expanded self))
     \<and> fst ` set (expanded self) \<subseteq> set (seen_concepts self)
     \<and> list_all (\<lambda>x. snd x \<le> 5) (expanded self)"

section \<open>Properties of the diversity score\<close>

lemma diversity_loop_length:
  "diversity_loop L c xs s = s + int (length (filter (shares_no_token L c) xs))"
  by (induction xs arbitrary: s) (simp_all add: Let_def shares_no_token_def)

lemma diversity_score_card:
  assumes "distinct xs"
  shows "diversity_score L c xs = int (card {x \<in> set xs. shares_no_token L c x})"
proof -
  have "distinct (filter (shares_no_token L c) xs)"
    using assms by simp
  then have "length (filter (shares_no_token L c) xs) = card (set (filter (shares_no_token L c) xs))"
    by (rule distinct_card [symmetric])
  moreover have "set (filter (shares_no_token L c) xs) = {x \<in> set xs. shares_no_token L c x}"
    by auto
  ultimately have "length (filter (shares_no_token L c) xs) = card {x \<in> set xs. shares_no_token L c x}"
    by (simp only:)
  then show ?thesis
    by (simp add: diversity_score_def diversity_loop_length)
qed

text \<open>
  C3. The score of a candidate against a set of existing concepts (in any order of
  iteration) is the number of existing concepts that share no lowercase whitespace token
  with it. Adding a concept to the set never lowers the score, and adding a new concept
  that shares no token with the candidate raises it by one.
\<close>

theorem diversity_score_counts_disjoint:
  assumes "distinct existing" and "distinct existing'"
    and "set existing' = insert e (set existing)"
  shows "diversity_score L c existing = int (card {x \<in> set existing. shares_no_token L c x})
       \<and> diversity_score L c existing \<le> diversity_score L c existing'
       \<and> (e \<notin> set existing \<and> shares_no_token L c e \<longrightarrow>
            diversity_score L c existing' = diversity_score L c existing + 1)"
proof -
  let ?A = "{x \<in> set existing. shares_no_token L c x}"
  let ?B = "{x \<in> set existing'. shares_no_token L c x}"
  have fin: "finite ?B" by simp
  have sub: "?A \<subseteq> ?B" using assms(3) by auto
  have le: "card ?A \<le> card ?B" using card_mono [OF fin sub] .
  have one: "card ?B = card ?A + 1" if "e \<notin> set existing" "shares_no_token L c e"
  proof -
    have "?B = insert e ?A" using assms(3) that(2) by auto
    moreover have "e \<notin> ?A" using that(1) by simp
    ultimately show ?thesis by simp
  qed
  show ?thesis
    using le one by (simp add: diversity_score_card assms(1,2))
qed

theorem diversity_score_counts_disjoint_witness:
  "distinct [ascii ''Ocean'', ascii ''Deep Sea'']
   \<and> distinct [ascii ''Jazz'', ascii ''Ocean'', ascii ''Deep Sea'']
   \<and> diversity_score \<lparr>lower = ascii_lower, loads = (\<lambda>s. None)\<rparr> (ascii ''Ocean Waves'')
        [ascii ''Ocean'', ascii ''Deep Sea''] = 1
   \<and> diversity_score \<lparr>lower = ascii_lower, loads = (\<lambda>s. None)\<rparr> (ascii ''Ocean Waves'')
        [ascii ''Jazz'', ascii ''Ocean'', ascii ''Deep Sea''] = 2"
proof -
  let ?L = "\<lparr>lower = ascii_lower, loads = (\<lambda>s. None)\<rparr>"
  have d1: "distinct [ascii ''Ocean'', ascii ''Deep Sea'']"
    by (simp add: ascii_def)
  have d2: "distinct [ascii ''Jazz'', ascii ''Ocean'', ascii ''Deep Sea'']"
    by (simp add: ascii_def)
  have s: "set [ascii ''Jazz'', ascii ''Ocean'', ascii ''Deep Sea'']
         = insert (ascii ''Jazz'') (set [ascii ''Ocean'', ascii ''Deep Sea''])"
    by simp
  have new: "ascii ''Jazz'' \<notin> set [ascii ''Ocean'', ascii ''Deep Sea'']"
    by (simp add: ascii_def)
  have disj: "shares_no_token ?L (ascii ''Ocean Waves'') (ascii ''Jazz'')"
    by (simp add: shares_no_token_def py_split_def ascii_def ascii_lower_def py_isspace_def)
  have v: "diversity_score ?L (ascii ''Ocean Waves'') [ascii ''Ocean'', ascii ''Deep Sea''] = 1"
    by (simp add: diversity_score_def Let_def py_split_def ascii_def ascii_lower_def
        py_isspace_def)
  from diversity_score_counts_disjoint [OF d1 d2 s, of ?L "ascii ''Ocean Waves''"] new disj v
  show ?thesis using d1 d2 by simp
qed

section \<open>The height of the bounded tree\<close>

lemma count_newlines_append [simp]:
  "count_newlines (a @ b) = count_newlines a + count_newlines b"
  by (simp add: count_newlines_def)

lemma count_newlines_zero: "count_newlines s = 0 \<longleftrightarrow> 10 \<notin> set s"
  by (auto simp: count_newlines_def filter_empty_conv)

lemma count_newlines_single [simp]: "count_newlines [10] = 1"
  by (simp add: count_newlines_def)

lemma colours_one_line [simp]:
  "count_newlines Fore_BLACK = 0" "count_newlines Fore_RED = 0" "count_newlines Fore_GREEN = 0"
  "count_newlines Fore_YELLOW = 0" "count_newlines Fore_BLUE = 0"
  "count_newlines Fore_MAGENTA = 0" "count_newlines Fore_CYAN = 0"
  "count_newlines Fore_WHITE = 0" "count_newlines Back_GREEN = 0"
  "count_newlines Back_BLUE = 0" "count_newlines Style_BRIGHT = 0"
  "count_newlines Style_RESET_ALL = 0"
  by (simp_all add: count_newlines_def csi_def ascii_def Fore_BLACK_def Fore_RED_def
      Fore_GREEN_def Fore_YELLOW_def Fore_BLUE_def Fore_MAGENTA_def Fore_CYAN_def
      Fore_WHITE_def Back_GREEN_def Back_BLUE_def Style_BRIGHT_def Style_RESET_ALL_def)

lemma connector_one_line [simp]: "count_newlines (connector b) = 0"
  by (simp add: count_newlines_def connector_def)

lemma extend_prefix_one_line:
  "count_newlines prefix = 0 \<Longrightarrow> count_newlines (extend_prefix prefix b) = 0"
  by (simp add: extend_prefix_def) (simp add: count_newlines_def ascii_def)

lemma py_slice_one_line: "count_newlines s = 0 \<Longrightarrow> count_newlines (py_slice s a b) = 0"
  using set_py_slice [of s a b] by (auto simp: count_newlines_zero)

lemma depth_color_cases:
  "depth_color d \<in> {Fore_YELLOW, Fore_GREEN, Fore_BLUE, Fore_MAGENTA, Fore_RED, Fore_WHITE}"
proof -
  define colors where "colors = [Fore_YELLOW, Fore_GREEN, Fore_BLUE, Fore_MAGENTA, Fore_RED, Fore_WHITE]"
  have "min d (length colors - 1) < length colors" by (simp add: colors_def)
  then have "colors ! min d (length colors - 1) \<in> set colors" by (rule nth_mem)
  then show ?thesis by (simp add: depth_color_def Let_def colors_def)
qed

lemma depth_color_one_line [simp]: "count_newlines (depth_color d) = 0"
  using depth_color_cases [of d] by auto

lemma color_node_one_line:
  assumes "count_newlines node = 0" "count_newlines prefix = 0"
  shows "count_newlines (color_node self node prefix is_last d) = 0"
proof -
  have e: "count_newlines (ascii ''...'') = 0"
    by (simp add: count_newlines_def ascii_def)
  show ?thesis
    using assms e by (simp add: color_node_def Let_def py_slice_one_line)
qed

lemma more_line_count: "count_newlines prefix = 0 \<Longrightarrow> count_newlines (more_line prefix b) = 1"
  by (simp add: more_line_def) (simp add: count_newlines_def ascii_def)

lemma more_nodes_line_count:
  "count_newlines prefix = 0 \<Longrightarrow> count_newlines (more_nodes_line prefix) = 1"
  by (simp add: more_nodes_line_def) (simp add: count_newlines_def ascii_def)

lemma cycle_line_count:
  "count_newlines (ascii '' '' @ Fore_RED @ ascii ''(...)'' @ Style_RESET_ALL @ [10]) = 1"
  by simp (simp add: count_newlines_def ascii_def)


lemma successors_one_line:
  "one_line_labels g \<Longrightarrow> c \<in> set (successors g n) \<Longrightarrow> count_newlines c = 0"
  by (auto simp: one_line_labels_def successors_def list_all_iff count_newlines_zero)

lemma kept_one_line:
  assumes "one_line_labels g"
    and "c \<in> set (fst (limit_children fp r (order_children fp (successors g n))))"
  shows "count_newlines c = 0"
  using assms set_limit_children [of fp r "order_children fp (successors g n)"]
  by (auto simp: set_order_children intro: successors_one_line)

lemma height_bound:
  "int lines_used < available_height \<Longrightarrow> one_line_labels (graph self) \<Longrightarrow>
     count_newlines node = 0 \<Longrightarrow> count_newlines prefix = 0 \<Longrightarrow>
     int (lines_used + count_newlines (generate_ascii_tree self node prefix is_last visited
        focus_paths max_depth current_depth available_height lines_used)) \<le> available_height"
  "int lines_used < available_height \<Longrightarrow> one_line_labels (graph self) \<Longrightarrow>
     (\<forall>c \<in> set children. count_newlines c = 0) \<Longrightarrow> count_newlines next_prefix = 0 \<Longrightarrow>
     (case draw_children self children has_more next_prefix visited focus_paths max_depth
        current_depth available_height result lines_used of
       (result', lines_used') \<Rightarrow>
          int lines_used' \<le> available_height \<and> lines_used \<le> lines_used'
          \<and> count_newlines result' = count_newlines result + (lines_used' - lines_used))"
proof (induction self node prefix is_last visited focus_paths max_depth current_depth
    available_height lines_used
    and self children has_more next_prefix visited focus_paths max_depth current_depth
    available_height result lines_used
    rule: generate_ascii_tree_draw_children.induct)
  case (1 self node prefix is_last visited focus_paths max_depth current_depth available_height lines_used)
  define line where "line = color_node self node prefix is_last current_depth"
  have line0: "count_newlines line = 0"
    unfolding line_def using 1 by (simp add: color_node_one_line)
  show ?case
  proof (cases "node \<in> visited \<or> beyond max_depth current_depth")
    case True
    have h: "\<not> available_height \<le> int lines_used" using 1(2) by simp
    have res: "generate_ascii_tree self node prefix is_last visited focus_paths max_depth
          current_depth available_height lines_used
          = line @ ascii '' '' @ Fore_RED @ ascii ''(...)'' @ Style_RESET_ALL @ [10]"
      unfolding line_def
      by (subst generate_ascii_tree.simps) (simp only: h True if_False if_True)
    show ?thesis
      unfolding res using 1(2) line0 cycle_line_count by simp
  next
    case False
    note nv = False
    show ?thesis
    proof (cases "successors (graph self) node = [] \<or> int (lines_used + 1) \<ge> available_height")
      case True
      have h: "\<not> available_height \<le> int lines_used" using 1(2) by simp
      have res: "generate_ascii_tree self node prefix is_last visited focus_paths max_depth
          current_depth available_height lines_used = line @ [10]"
        unfolding line_def
        by (subst generate_ascii_tree.simps) (simp only: h nv True if_False if_True Let_def)
      show ?thesis
        unfolding res using 1(2) line0 by simp
    next
      case False
      define kept where "kept = limit_children focus_paths (available_height - int (lines_used + 1))
                            (order_children focus_paths (successors (graph self) node))"
      define next_prefix where "next_prefix = extend_prefix prefix is_last"
      define drawn where "drawn = draw_children self (fst kept) (snd kept) next_prefix
                             (insert node visited) focus_paths max_depth current_depth
                             available_height (line @ [10]) (lines_used + 1)"
      have np: "count_newlines next_prefix = 0"
        unfolding next_prefix_def using 1 by (simp add: extend_prefix_one_line)
      have ks: "\<forall>c \<in> set (fst kept). count_newlines c = 0"
        unfolding kept_def using kept_one_line [OF 1(3)] by blast
      have lt: "int (lines_used + 1) < available_height" using False by simp
      have h: "\<not> available_height \<le> int lines_used" using 1(2) by simp
      have ih: "case drawn of (result', lines_used') \<Rightarrow>
          int lines_used' \<le> available_height \<and> lines_used + 1 \<le> lines_used'
          \<and> count_newlines result' = count_newlines (line @ [10]) + (lines_used' - (lines_used + 1))"
        unfolding drawn_def kept_def next_prefix_def line_def
        by (rule 1(1) [OF h nv refl refl False refl refl lt 1(3) ks [unfolded kept_def]
              np [unfolded next_prefix_def]])
      have res: "generate_ascii_tree self node prefix is_last visited focus_paths max_depth
          current_depth available_height lines_used
          = (if snd kept \<and> int (snd drawn) < available_height
             then fst drawn @ more_nodes_line next_prefix else fst drawn)"
        unfolding drawn_def kept_def next_prefix_def line_def
        by (subst generate_ascii_tree.simps) (simp only: h nv False if_False Let_def)
      obtain r' l' where d: "drawn = (r', l')" by (cases drawn)
      have r': "count_newlines r' = 1 + (l' - (lines_used + 1))" and l': "int l' \<le> available_height"
        and ll: "lines_used + 1 \<le> l'"
        using ih line0 by (simp_all add: d)
      show ?thesis
        unfolding res d fst_conv snd_conv
        using r' l' ll more_nodes_line_count [OF np] by auto
    qed
  qed
next
  case (2 self has_more next_prefix visited focus_paths max_depth current_depth available_height result lines_used)
  then show ?case by simp
next
  case (3 self child rest has_more next_prefix visited focus_paths max_depth current_depth available_height result lines_used)
  define child_tree where "child_tree = generate_ascii_tree self child next_prefix
      (rest = [] \<and> \<not> has_more) visited focus_paths max_depth (current_depth + 1)
      available_height lines_used"
  define l' where "l' = lines_used + count_newlines child_tree"
  have c: "int l' \<le> available_height"
    unfolding l'_def child_tree_def using 3 by (intro 3(1)) auto
  have res: "draw_children self (child # rest) has_more next_prefix visited focus_paths
      max_depth current_depth available_height result lines_used
      = (if int l' \<ge> available_height then (result @ child_tree, l')
         else draw_children self rest has_more next_prefix visited focus_paths max_depth
                current_depth available_height (result @ child_tree) l')"
    unfolding l'_def child_tree_def by (simp only: draw_children.simps Let_def)
  show ?case
  proof (cases "int l' \<ge> available_height")
    case True
    then show ?thesis
      unfolding res using c by (simp add: l'_def)
  next
    case False
    have "case draw_children self rest has_more next_prefix visited focus_paths max_depth
        current_depth available_height (result @ child_tree) l' of
       (result', lines_used') \<Rightarrow>
          int lines_used' \<le> available_height \<and> l' \<le> lines_used'
          \<and> count_newlines result' = count_newlines (result @ child_tree) + (lines_used' - l')"
      using False 3(3-) by (intro 3(2)) (auto simp: child_tree_def l'_def)
    then show ?thesis
      unfolding res using False by (auto simp: l'_def split: prod.splits)
  qed
qed

text \<open>
  C2, as the code has it. For a graph whose labels have no line break in them, the text
  the bounded renderer returns for a node of the graph, a focus path, a display depth and
  an available height has at most that many lines when the height is at least 1. When the
  height is 0 or less the text is the truncation marker, exactly one line. The available
  height is \<open>term_height - 10\<close> in \<open>update_live_tree\<close>.
\<close>

theorem generate_ascii_tree_height:
  assumes "one_line_labels (graph self)" and "node \<in> set (nodes (graph self))"
  shows "int (count_newlines (generate_ascii_tree self node [] True {} focus_paths max_depth 0
           available_height 0)) \<le> max 1 available_height
       \<and> (available_height \<le> 0 \<longrightarrow>
            generate_ascii_tree self node [] True {} focus_paths max_depth 0 available_height 0
              = more_line [] True
            \<and> count_newlines (generate_ascii_tree self node [] True {} focus_paths max_depth 0
                 available_height 0) = 1)"
proof (cases "1 \<le> available_height")
  case True
  have n: "count_newlines node = 0"
    using assms by (auto simp: one_line_labels_def list_all_iff count_newlines_zero)
  have "int (0 + count_newlines (generate_ascii_tree self node [] True {} focus_paths max_depth 0
           available_height 0)) \<le> available_height"
    using True assms(1) n by (intro height_bound(1)) (simp_all add: count_newlines_def)
  then show ?thesis using True by simp
next
  case False
  then have "generate_ascii_tree self node [] True {} focus_paths max_depth 0 available_height 0
      = more_line [] True"
    by (subst generate_ascii_tree.simps) simp
  moreover have "count_newlines (more_line [] True) = 1"
    by (rule more_line_count) (simp add: count_newlines_def)
  ultimately show ?thesis by simp
qed

text \<open>
  A root with two children and a height of 2 is drawn in at most two lines; with a height
  of 0 the text is the truncation marker.
\<close>

theorem generate_ascii_tree_height_witness:
  "one_line_labels \<lparr>nodes = [ascii ''Root'', ascii ''Left'', ascii ''Right''],
       edges = [(ascii ''Root'', ascii ''Left''), (ascii ''Root'', ascii ''Right'')]\<rparr>
   \<and> ascii ''Root'' \<in> set [ascii ''Root'', ascii ''Left'', ascii ''Right'']
   \<and> int (count_newlines (generate_ascii_tree
        ((init_explorer (ascii ''llama3'') (80, 12))
           \<lparr>graph := \<lparr>nodes = [ascii ''Root'', ascii ''Left'', ascii ''Right''],
               edges = [(ascii ''Root'', ascii ''Left''), (ascii ''Root'', ascii ''Right'')]\<rparr>\<rparr>)
        (ascii ''Root'') [] True {} [] None 0 2 0)) \<le> 2
   \<and> (0 :: int) \<le> 0
   \<and> generate_ascii_tree
        ((init_explorer (ascii ''llama3'') (80, 12))
           \<lparr>graph := \<lparr>nodes = [ascii ''Root'', ascii ''Left'', ascii ''Right''],
               edges = [(ascii ''Root'', ascii ''Left''), (ascii ''Root'', ascii ''Right'')]\<rparr>\<rparr>)
        (ascii ''Root'') [] True {} [] None 0 0 0 = more_line [] True"
  using generate_ascii_tree_height [of
      "(init_explorer (ascii ''llama3'') (80, 12))
         \<lparr>graph := \<lparr>nodes = [ascii ''Root'', ascii ''Left'', ascii ''Right''],
             edges = [(ascii ''Root'', ascii ''Left''), (ascii ''Root'', ascii ''Right'')]\<rparr>\<rparr>"
      "ascii ''Root''" "[]" None 2]
    generate_ascii_tree_height [of
      "(init_explorer (ascii ''llama3'') (80, 12))
         \<lparr>graph := \<lparr>nodes = [ascii ''Root'', ascii ''Left'', ascii ''Right''],
             edges = [(ascii ''Root'', ascii ''Left''), (ascii ''Root'', ascii ''Right'')]\<rparr>\<rparr>"
      "ascii ''Root''" "[]" None 0]
  by (simp add: one_line_labels_def ascii_def)

text \<open>
  The claim as it is written fails in two ways. With an available height of 0 (a terminal
  of 10 lines) the renderer returns the truncation marker, one line. With a label that
  holds a line break (\<open>"A\nB"\<close>) and a height of 1 the text has two lines.
\<close>

theorem generate_ascii_tree_height_counterexample:
  "\<not> int (count_newlines (generate_ascii_tree
        ((init_explorer (ascii ''llama3'') (80, 10))
           \<lparr>graph := \<lparr>nodes = [ascii ''A''], edges = []\<rparr>\<rparr>)
        (ascii ''A'') [] True {} [] None 0 0 0)) \<le> 0
   \<and> \<not> int (count_newlines (generate_ascii_tree
        ((init_explorer (ascii ''llama3'') (80, 11))
           \<lparr>graph := \<lparr>nodes = [[65, 10, 66]], edges = []\<rparr>\<rparr>)
        [65, 10, 66] [] True {} [] None 0 1 0)) \<le> 1"
proof -
  have "count_newlines (more_line [] True) = 1"
    by (rule more_line_count) (simp add: count_newlines_def)
  then have a: "count_newlines (generate_ascii_tree
        ((init_explorer (ascii ''llama3'') (80, 10))
           \<lparr>graph := \<lparr>nodes = [ascii ''A''], edges = []\<rparr>\<rparr>)
        (ascii ''A'') [] True {} [] None 0 0 0) = 1"
    by (simp add: generate_ascii_tree.simps)
  have b: "count_newlines (generate_ascii_tree
        ((init_explorer (ascii ''llama3'') (80, 11))
           \<lparr>graph := \<lparr>nodes = [[65, 10, 66]], edges = []\<rparr>\<rparr>)
        [65, 10, 66] [] True {} [] None 0 1 0) = 2"
    by (simp add: generate_ascii_tree.simps init_explorer_def successors_def color_node_def
        Let_def beyond_def connector_def)
      (simp add: count_newlines_def csi_def ascii_def Fore_CYAN_def Fore_MAGENTA_def
        Style_BRIGHT_def Style_RESET_ALL_def)
  show ?thesis using a b by simp
qed

section \<open>Properties of the generator gateway\<close>

lemma filter_concepts_not_strings:
  "\<not> list_all is_string items \<Longrightarrow> filter_concepts L self items acc = None"
proof (induction L self items acc rule: filter_concepts.induct)
  case (2 L self rc rest acc)
  then show ?case by (simp add: Let_def)
qed simp_all

lemma parse_response_malformed: "malformed L response \<Longrightarrow> parse_response L self response = []"
  by (auto simp: malformed_def parse_response_def bracketed_def Let_def
      filter_concepts_not_strings split: option.splits)

lemma check_model_availability_model:
  "model s = model self \<Longrightarrow>
     fst (check_model_availability w s) = fst (check_model_availability w self)"
  by (simp add: check_model_availability_def Let_def split: option.splits)

lemma check_model_availability_fields:
  "graph (snd (check_model_availability w s)) = graph s"
  "seen_concepts (snd (check_model_availability w s)) = seen_concepts s"
  "current_concept (snd (check_model_availability w s)) = current_concept s"
  "expanded (snd (check_model_availability w s)) = expanded s"
  "term_width (snd (check_model_availability w s)) = term_width s"
  by (simp_all add: check_model_availability_def Let_def split: option.splits)

lemma query_ollama_fields:
  "graph (snd (query_ollama w s p)) = graph s"
  "seen_concepts (snd (query_ollama w s p)) = seen_concepts s"
  "current_concept (snd (query_ollama w s p)) = current_concept s"
  "expanded (snd (query_ollama w s p)) = expanded s"
  "term_width (snd (query_ollama w s p)) = term_width s"
  using check_model_availability_fields [of w s]
  by (auto simp: query_ollama_def split: prod.splits bool.splits option.splits)

lemma query_ollama_text:
  assumes "fst (check_model_availability w self)" "generated w = Some response"
  shows "fst (query_ollama w self prompt) = response"
  using assms by (auto simp: query_ollama_def split: prod.splits bool.splits)

lemma add_related_Nil: "add_related self queue concept depth path [] = (self, queue)"
  by simp

text \<open>
  C5. When the model is available and the text the backend generates is malformed (no
  \<open>[\<close>, no \<open>]\<close>, or a bracketed part that does not decode to an array of
  strings), the gateway returns no candidate, and the iteration of the exploration loop
  that asked leaves the queue as it was after the entry was taken and the graph unchanged:
  no child enqueued, no node or edge added.
\<close>

theorem malformed_response_no_children:
  assumes "fst (check_model_availability w self)"
    and "generated w = Some response" and "malformed L response"
  shows "fst (get_related_concepts L w self concept depth path) = []
       \<and> snd (iteration L max_depth diversity_bias w self (concept, depth, path) queue) = queue
       \<and> graph (fst (iteration L max_depth diversity_bias w self (concept, depth, path) queue))
           = graph self"
proof -
  have g: "fst (get_related_concepts L w s concept depth path) = []
         \<and> graph (snd (get_related_concepts L w s concept depth path)) = graph s"
    if "model s = model self" for s
  proof (cases "concept \<in> set (seen_concepts s) \<or> depth > 5")
    case True
    then show ?thesis by (simp add: get_related_concepts_def)
  next
    case False
    let ?s1 = "s\<lparr>seen_concepts := set_add (seen_concepts s) concept,
                   current_concept := Some concept,
                   expanded := expanded s @ [(concept, depth)]\<rparr>"
    have "fst (check_model_availability w ?s1)"
      using assms(1) that check_model_availability_model [of ?s1 self w] by simp
    then have "fst (query_ollama w ?s1 (concept, path @ [concept])) = response"
      using assms(2) by (rule query_ollama_text)
    moreover have "graph (snd (query_ollama w ?s1 (concept, path @ [concept]))) = graph s"
      by (simp add: query_ollama_fields)
    ultimately show ?thesis
      using False assms(3)
      by (cases "query_ollama w ?s1 (concept, path @ [concept])")
        (simp add: get_related_concepts_def Let_def parse_response_malformed)
  qed
  have u: "model (update_live_tree w self) = model self"
    "graph (update_live_tree w self) = graph self"
    by (simp_all add: update_live_tree_def)
  obtain r s' where e: "get_related_concepts L w (update_live_tree w self) concept depth path = (r, s')"
    by (cases "get_related_concepts L w (update_live_tree w self) concept depth path")
  have r: "r = []" and s': "graph s' = graph self"
    using g [OF u(1)] e u(2) by simp_all
  show ?thesis
    using g [OF refl] by (simp add: iteration_def e r s')
qed

theorem malformed_response_no_children_witness:
  "fst (check_model_availability
        \<lparr>available_models = Some [ascii ''llama3''], generated = Some (ascii ''I have no ideas.''),
         random_draw = 1 / 2, terminal_size = (80, 24)\<rparr>
        (init_explorer (ascii ''llama3'') (80, 24)))
   \<and> malformed \<lparr>lower = ascii_lower, loads = (\<lambda>s. None)\<rparr> (ascii ''I have no ideas.'')
   \<and> fst (get_related_concepts \<lparr>lower = ascii_lower, loads = (\<lambda>s. None)\<rparr>
        \<lparr>available_models = Some [ascii ''llama3''], generated = Some (ascii ''I have no ideas.''),
         random_draw = 1 / 2, terminal_size = (80, 24)\<rparr>
        (init_explorer (ascii ''llama3'') (80, 24)) (ascii ''Time'') 0 []) = []"
proof -
  let ?w = "\<lparr>available_models = Some [ascii ''llama3''],
      generated = Some (ascii ''I have no ideas.''), random_draw = 1 / 2,
      terminal_size = (80, 24)\<rparr>"
  have a: "fst (check_model_availability ?w (init_explorer (ascii ''llama3'') (80, 24)))"
    by (simp add: check_model_availability_def get_available_models_def init_explorer_def)
  have g: "generated ?w = Some (ascii ''I have no ideas.'')" by simp
  have m: "malformed \<lparr>lower = ascii_lower, loads = (\<lambda>s. None)\<rparr> (ascii ''I have no ideas.'')"
    by (simp add: malformed_def ascii_def)
  from malformed_response_no_children [OF a g m] a m
  show ?thesis by simp
qed

section \<open>A request is never repeated\<close>

lemma get_related_concepts_seen:
  assumes "concept \<in> set (seen_concepts self)"
  shows "get_related_concepts L w self concept depth path = ([], self)"
  using assms by (simp add: get_related_concepts_def)



lemma truncated_length:
  assumes "3 \<le> b" "b < int (length rc)"
  shows "int (length (py_slice rc None (Some (b - 3)) @ ascii ''...'')) = b"
  using assms by (simp add: py_slice_def slice_bound_def ascii_def Let_def)

lemma filter_concepts_sound:
  assumes "filter_concepts L self items acc = Some out" and "rc \<in> set out"
  shows "rc \<in> set acc \<or>
         (py_strip rc \<noteq> [] \<and> lower L rc \<notin> lower L ` set (seen_concepts self)
          \<and> (3 \<le> term_width self div 3 \<longrightarrow> int (length rc) \<le> term_width self div 3))"
  using assms
proof (induction L self items acc rule: filter_concepts.induct)
  case (1 L self acc)
  then show ?case by simp
next
  case (2 L self rc0 rest acc)
  define rc1 where "rc1 = (if int (length rc0) > term_width self div 3
                then py_slice rc0 None (Some (term_width self div 3 - 3)) @ ascii ''...''
                else rc0)"
  have len: "3 \<le> term_width self div 3 \<longrightarrow> int (length rc1) \<le> term_width self div 3"
    unfolding rc1_def using truncated_length [of "term_width self div 3" rc0] by auto
  show ?case
  proof (cases "py_strip rc1 = [] \<or> lower L rc1 \<in> set (map (lower L) (seen_concepts self))")
    case True
    then have "filter_concepts L self rest acc = Some out"
      using "2.prems"(1) by (simp add: Let_def rc1_def)
    then show ?thesis
      using "2.IH"(1) [OF rc1_def True _ "2.prems"(2)] by simp
  next
    case False
    then have "filter_concepts L self rest (acc @ [rc1]) = Some out"
      using "2.prems"(1) by (simp add: Let_def rc1_def)
    then have "rc \<in> set (acc @ [rc1]) \<or>
         (py_strip rc \<noteq> [] \<and> lower L rc \<notin> lower L ` set (seen_concepts self)
          \<and> (3 \<le> term_width self div 3 \<longrightarrow> int (length rc) \<le> term_width self div 3))"
      using "2.IH"(2) [OF rc1_def False _ "2.prems"(2)] by simp
    then show ?thesis
      using False len by auto
  qed
qed simp_all

lemma parse_response_sound:
  assumes "rc \<in> set (parse_response L self response)"
  shows "py_strip rc \<noteq> [] \<and> lower L rc \<notin> lower L ` set (seen_concepts self)
          \<and> (3 \<le> term_width self div 3 \<longrightarrow> int (length rc) \<le> term_width self div 3)"
proof -
  obtain items out where "filter_concepts L self items [] = Some out" "rc \<in> set out"
    using assms
    by (auto simp: parse_response_def Let_def split: if_splits option.splits)
      (metis)
  then show ?thesis
    using filter_concepts_sound [of L self items "[]" out rc] by simp
qed

text \<open>
  What holds of every candidate the gateway returns: it is not blank, it differs in
  lowercase from the concept asked about and from every concept seen before the call, and,
  when the budget \<open>term_width // 3\<close> is at least 3, it is no longer than the budget.
\<close>

lemma get_related_concepts_sound:
  assumes "rc \<in> set (fst (get_related_concepts L w self concept depth path))"
  shows "py_strip rc \<noteq> []
       \<and> lower L rc \<notin> lower L ` (insert concept (set (seen_concepts self)))
       \<and> (3 \<le> term_width self div 3 \<longrightarrow> int (length rc) \<le> term_width self div 3)"
proof -
  let ?s1 = "self\<lparr>seen_concepts := set_add (seen_concepts self) concept,
                   current_concept := Some concept,
                   expanded := expanded self @ [(concept, depth)]\<rparr>"
  let ?q = "query_ollama w ?s1 (concept, path @ [concept])"
  have g: "\<not> (concept \<in> set (seen_concepts self) \<or> depth > 5)"
    using assms by (auto simp: get_related_concepts_def)
  then have "fst (get_related_concepts L w self concept depth path)
      = parse_response L (snd ?q) (fst ?q)"
    by (simp add: get_related_concepts_def Let_def split: prod.splits)
  then have "rc \<in> set (parse_response L (snd ?q) (fst ?q))"
    using assms by simp
  from parse_response_sound [OF this] g
  show ?thesis
    by (simp add: query_ollama_fields set_add_def)
qed

text \<open>
  C6 at a terminal of 8 columns: the budget is 2, and \<open>rc[:-1] + "..."\<close> turns the
  7 characters of \<open>Quantum\<close> into 9.
\<close>

theorem truncation_exceeds_narrow_budget:
  "fst (get_related_concepts
        \<lparr>lower = ascii_lower,
         loads = map_of [(ascii ''[\"Quantum\"]'', [JString (ascii ''Quantum'')])]\<rparr>
        \<lparr>available_models = Some [ascii ''llama3''], generated = Some (ascii ''[\"Quantum\"]''),
         random_draw = 1 / 2, terminal_size = (8, 24)\<rparr>
        (init_explorer (ascii ''llama3'') (8, 24)) (ascii ''Time'') 0 [])
     = [ascii ''Quantu...'']
   \<and> term_width (init_explorer (ascii ''llama3'') (8, 24)) div 3 = 2
   \<and> length (ascii ''Quantu...'') = 9"
  by (simp add: get_related_concepts_def init_explorer_def set_add_def query_ollama_def
      check_model_availability_def get_available_models_def parse_response_def py_find_def
      py_rfind_def py_slice_def slice_bound_def json_loads_def Let_def ascii_def py_strip_def
      py_isspace_def ascii_lower_def)

section \<open>Invariants of the exploration loop\<close>

lemma web_loop_invariant:
  assumes "P (self, queue)"
    and "\<And>w self e queue. P (self, e # queue) \<Longrightarrow>
           P (iteration L max_depth diversity_bias w self e queue)"
  shows "P (web_loop L max_depth diversity_bias ws (self, queue))"
  using assms(1)
proof (induction ws arbitrary: self queue)
  case Nil
  then show ?case by (cases queue) simp_all
next
  case (Cons w ws)
  show ?case
  proof (cases queue)
    case Nil
    then show ?thesis using Cons.prems by simp
  next
    case (Cons e rest)
    obtain s' q' where it: "iteration L max_depth diversity_bias w self e rest = (s', q')"
      by (cases "iteration L max_depth diversity_bias w self e rest")
    have "P (s', q')"
      using assms(2) [of self e rest w] Cons.prems Cons it by simp
    then show ?thesis
      using Cons.IH [of s' q'] Cons it by simp
  qed
qed

lemma get_related_concepts_state:
  assumes "get_related_concepts L w self concept depth path = (r, s')"
  shows "graph s' = graph self \<and>
     ((concept \<in> set (seen_concepts self) \<or> depth > 5) \<and> r = [] \<and> s' = self
      \<or> concept \<notin> set (seen_concepts self) \<and> depth \<le> 5
         \<and> seen_concepts s' = seen_concepts self @ [concept]
         \<and> expanded s' = expanded self @ [(concept, depth)])"
proof (cases "concept \<in> set (seen_concepts self) \<or> depth > 5")
  case True
  then show ?thesis using assms by (auto simp: get_related_concepts_def)
next
  case False
  let ?s1 = "self\<lparr>seen_concepts := set_add (seen_concepts self) concept,
                   current_concept := Some concept,
                   expanded := expanded self @ [(concept, depth)]\<rparr>"
  have "s' = snd (query_ollama w ?s1 (concept, path @ [concept]))"
    using False assms by (auto simp: get_related_concepts_def Let_def split: prod.splits)
  then show ?thesis
    using False by (simp add: query_ollama_fields set_add_def)
qed

lemma add_related_fields:
  "seen_concepts (fst (add_related self queue concept depth path rels)) = seen_concepts self"
  "expanded (fst (add_related self queue concept depth path rels)) = expanded self"
  by (induction self queue concept depth path rels rule: add_related.induct)
    (simp_all add: Let_def)

lemma edges_add_node [simp]: "edges (add_node g n) = edges g"
  by (simp add: add_node_def)

lemma set_edges_add_edge [simp]: "set (edges (add_edge g u v)) = insert (u, v) (set (edges g))"
  by (auto simp: add_edge_def Let_def)

text \<open>
  An edge into a node that has no edge going out, and that is not the source itself,
  closes no cycle.
\<close>

lemma acyclic_insert_sink:
  assumes "acyclic r" and "v \<notin> fst ` r" and "u \<noteq> v"
  shows "acyclic (insert (u, v) r)"
proof -
  have "(v, u) \<notin> r\<^sup>*"
  proof
    assume "(v, u) \<in> r\<^sup>*"
    then show False
    proof (cases rule: converse_rtranclE)
      case base
      then show ?thesis using assms(3) by simp
    next
      case (step z)
      then have "v \<in> fst ` r" by force
      then show ?thesis using assms(2) by simp
    qed
  qed
  then show ?thesis using assms(1) by (simp add: acyclic_insert)
qed

lemma add_related_sources_seen:
  assumes "sources_seen self" and "concept \<in> set (seen_concepts self)"
    and "set rels \<inter> set (seen_concepts self) = {}"
  shows "sources_seen (fst (add_related self queue concept depth path rels))"
  using assms
proof (induction self queue concept depth path rels rule: add_related.induct)
  case (1 self queue concept depth path)
  then show ?case by simp
next
  case (2 self queue concept depth path rel_concept rest)
  define self1 where "self1 = (if rel_concept \<notin> set (nodes (graph self))
                   then self\<lparr>graph := add_node (graph self) rel_concept,
                             last_added := Some rel_concept\<rparr>
                   else self)"
  define self2 where "self2 = self1\<lparr>graph := add_edge (graph self1) concept rel_concept\<rparr>"
  have e1: "edges (graph self1) = edges (graph self)"
    and s1: "seen_concepts self1 = seen_concepts self"
    by (simp_all add: self1_def)
  have e2: "set (edges (graph self2)) = insert (concept, rel_concept) (set (edges (graph self)))"
    and s2: "seen_concepts self2 = seen_concepts self"
    by (simp_all add: self2_def e1 s1)
  have rel: "rel_concept \<notin> set (seen_concepts self)" using "2.prems"(3) by auto
  have "rel_concept \<notin> fst ` set (edges (graph self))"
    using "2.prems"(1) rel by (auto simp: sources_seen_def)
  moreover have "concept \<noteq> rel_concept" using "2.prems"(2) rel by auto
  ultimately have "acyclic (set (edges (graph self2)))"
    using "2.prems"(1) unfolding e2 sources_seen_def by (intro acyclic_insert_sink) auto
  then have inv2: "sources_seen self2"
    using "2.prems"(1,2) by (auto simp: sources_seen_def e2 s2)
  have "sources_seen (fst (add_related self2 (queue @ [(rel_concept, depth + 1, path @ [concept])])
      concept depth path rest))"
    using "2.IH" [OF self1_def self2_def refl inv2] "2.prems"(2,3) by (simp add: s2)
  then show ?case
    by (simp add: Let_def self1_def [symmetric] self2_def [symmetric])
qed

lemma iteration_sources_seen:
  assumes "sources_seen self"
  shows "sources_seen (fst (iteration L max_depth diversity_bias w self e queue))"
proof -
  obtain concept depth path where e: "e = (concept, depth, path)" by (cases e)
  show ?thesis
  proof (cases "depth \<ge> max_depth")
    case True
    then show ?thesis using assms by (simp add: iteration_def e)
  next
    case False
    define u where "u = update_live_tree w self"
    obtain r s' where g: "get_related_concepts L w u concept depth path = (r, s')"
      by (cases "get_related_concepts L w u concept depth path")
    define r' where "r' = (if diversity_bias > 0 \<and> r \<noteq> [] \<and> random_draw w < diversity_bias
                       then sort_key (\<lambda>x. diversity_score L x (seen_concepts s')) r else r)"
    have it: "iteration L max_depth diversity_bias w self e queue
        = add_related s' queue concept depth path r'"
      using False by (simp add: iteration_def e u_def [symmetric] g r'_def Let_def)
    have sr: "set r' = set r" by (simp add: r'_def)
    have u: "sources_seen u" using assms by (simp add: u_def update_live_tree_def sources_seen_def)
    note st = get_related_concepts_state [OF g]
    show ?thesis
    proof (cases "r = []")
      case True
      have "sources_seen s'"
        using st u by (auto simp: sources_seen_def)
      then show ?thesis
        using True by (simp add: it r'_def)
    next
      case False
      then have new: "concept \<notin> set (seen_concepts u)"
        and seen': "seen_concepts s' = seen_concepts u @ [concept]"
        using st by auto
      have inv: "sources_seen s'"
        using st u seen' by (auto simp: sources_seen_def)
      have "set r \<inter> set (seen_concepts s') = {}"
      proof -
        have "rc \<notin> set (seen_concepts s')" if "rc \<in> set r" for rc
        proof -
          have "rc \<in> set (fst (get_related_concepts L w u concept depth path))"
            using that g by simp
          from get_related_concepts_sound [OF this]
          have "lower L rc \<notin> lower L ` (insert concept (set (seen_concepts u)))" by simp
          then show ?thesis using seen' by auto
        qed
        then show ?thesis by auto
      qed
      then show ?thesis
        unfolding it using inv seen' sr by (intro add_related_sources_seen) auto
    qed
  qed
qed

text \<open>
  C9. From a new explorer, after any number of iterations of the exploration loop, in any
  sequence of worlds, for any root, depth limit and diversity bias, the edges of the
  concept graph have no directed cycle. An edge is added from the concept being expanded,
  which is marked seen, to a candidate that the gateway has checked against the seen
  concepts; every edge starts at a seen concept, so the candidate has no edge going out.
\<close>

theorem concept_graph_acyclic:
  "acyclic (set (edges (graph (fst (web_loop L max_depth diversity_bias ws
       (start w0 (init_explorer m dims) root_concept))))))"
proof -
  have "sources_seen (fst (start w0 (init_explorer m dims) root_concept))"
    by (simp add: start_def update_live_tree_def init_explorer_def sources_seen_def
        empty_graph_def add_node_def acyclic_def)
  then have "sources_seen (fst (web_loop L max_depth diversity_bias ws
       (start w0 (init_explorer m dims) root_concept)))"
    unfolding start_def fst_conv
    by (rule web_loop_invariant [where P = "\<lambda>x. sources_seen (fst x)", simplified])
      (rule iteration_sources_seen)
  then show ?thesis by (simp add: sources_seen_def)
qed

lemma iteration_expanded_once:
  assumes "expanded_once self"
  shows "expanded_once (fst (iteration L max_depth diversity_bias w self e queue))"
proof -
  obtain concept depth path where e: "e = (concept, depth, path)" by (cases e)
  show ?thesis
  proof (cases "depth \<ge> max_depth")
    case True
    then show ?thesis using assms by (simp add: iteration_def e)
  next
    case False
    define u where "u = update_live_tree w self"
    obtain r s' where g: "get_related_concepts L w u concept depth path = (r, s')"
      by (cases "get_related_concepts L w u concept depth path")
    define r' where "r' = (if diversity_bias > 0 \<and> r \<noteq> [] \<and> random_draw w < diversity_bias
                       then sort_key (\<lambda>x. diversity_score L x (seen_concepts s')) r else r)"
    have it: "iteration L max_depth diversity_bias w self e queue
        = add_related s' queue concept depth path r'"
      using False by (simp add: iteration_def e u_def [symmetric] g r'_def Let_def)
    have u: "expanded_once u" using assms by (simp add: u_def update_live_tree_def expanded_once_def)
    have "expanded_once s'"
      using get_related_concepts_state [OF g] u
      by (fastforce simp: expanded_once_def)
    then show ?thesis
      by (simp add: it expanded_once_def add_related_fields)
  qed
qed

text \<open>
  C4. In a run of the exploration loop from an explorer that has recorded no request, after
  any number of iterations, in any sequence of worlds and for any depth limit, no concept
  has been asked about twice and every request was made at a depth of at most 5.
\<close>

theorem expanded_once_and_shallow:
  assumes "expanded self = []"
  shows "distinct (map fst (expanded (fst (web_loop L max_depth diversity_bias ws
           (start w0 self root_concept)))))
       \<and> list_all (\<lambda>x. snd x \<le> 5) (expanded (fst (web_loop L max_depth diversity_bias ws
           (start w0 self root_concept))))"
proof -
  have "expanded_once (fst (start w0 self root_concept))"
    using assms by (simp add: start_def update_live_tree_def expanded_once_def)
  then have "expanded_once (fst (web_loop L max_depth diversity_bias ws
      (start w0 self root_concept)))"
    unfolding start_def fst_conv
    by (rule web_loop_invariant [where P = "\<lambda>x. expanded_once (fst x)", simplified])
      (rule iteration_expanded_once)
  then show ?thesis by (simp add: expanded_once_def)
qed

theorem expanded_once_and_shallow_witness:
  "expanded (init_explorer (ascii ''llama3'') (80, 24)) = []
   \<and> distinct (map fst (expanded (fst (web_loop
        \<lparr>lower = ascii_lower,
         loads = map_of [(ascii ''[\"Jazz\", \"Ocean Waves\"]'',
                   [JString (ascii ''Jazz''), JString (ascii ''Ocean Waves'')])]\<rparr> 300 (4 / 5)
        [\<lparr>available_models = Some [ascii ''llama3''],
          generated = Some (ascii ''[\"Jazz\", \"Ocean Waves\"]''),
          random_draw = 1 / 2, terminal_size = (80, 24)\<rparr>]
        (start \<lparr>available_models = None, generated = None, random_draw = 0,
           terminal_size = (80, 24)\<rparr>
           (init_explorer (ascii ''llama3'') (80, 24)) (ascii ''Ocean''))))))
   \<and> list_all (\<lambda>x. snd x \<le> 5) (expanded (fst (web_loop
        \<lparr>lower = ascii_lower,
         loads = map_of [(ascii ''[\"Jazz\", \"Ocean Waves\"]'',
                   [JString (ascii ''Jazz''), JString (ascii ''Ocean Waves'')])]\<rparr> 300 (4 / 5)
        [\<lparr>available_models = Some [ascii ''llama3''],
          generated = Some (ascii ''[\"Jazz\", \"Ocean Waves\"]''),
          random_draw = 1 / 2, terminal_size = (80, 24)\<rparr>]
        (start \<lparr>available_models = None, generated = None, random_draw = 0,
           terminal_size = (80, 24)\<rparr>
           (init_explorer (ascii ''llama3'') (80, 24)) (ascii ''Ocean'')))))"
proof -
  have e: "expanded (init_explorer (ascii ''llama3'') (80, 24)) = []"
    by (simp add: init_explorer_def)
  from expanded_once_and_shallow [OF e] e show ?thesis by simp
qed

section \<open>The order of the candidates\<close>

text \<open>
  C1 at a concrete expansion. The root is \<open>Ocean\<close>, the bias 0.8, the draw 0.5, and the
  backend answers \<open>["Jazz", "Ocean Waves"]\<close>. Against the seen set \<open>{Ocean}\<close> the score
  of \<open>Jazz\<close> is 1 and the score of \<open>Ocean Waves\<close> is 0. \<open>list.sort\<close> is ascending, so
  \<open>Ocean Waves\<close>, the lower score, is enqueued first.
\<close>

theorem diversity_sort_lowest_first:
  "snd (web_loop
        \<lparr>lower = ascii_lower,
         loads = map_of [(ascii ''[\"Jazz\", \"Ocean Waves\"]'',
                   [JString (ascii ''Jazz''), JString (ascii ''Ocean Waves'')])]\<rparr> 3 (4 / 5)
        [\<lparr>available_models = Some [ascii ''llama3''],
          generated = Some (ascii ''[\"Jazz\", \"Ocean Waves\"]''),
          random_draw = 1 / 2, terminal_size = (80, 24)\<rparr>]
        (start \<lparr>available_models = None, generated = None, random_draw = 0,
           terminal_size = (80, 24)\<rparr>
           (init_explorer (ascii ''llama3'') (80, 24)) (ascii ''Ocean'')))
     = [(ascii ''Ocean Waves'', 1, [ascii ''Ocean'']), (ascii ''Jazz'', 1, [ascii ''Ocean''])]
   \<and> diversity_score \<lparr>lower = ascii_lower, loads = (\<lambda>s. None)\<rparr> (ascii ''Jazz'')
        [ascii ''Ocean''] = 1
   \<and> diversity_score \<lparr>lower = ascii_lower, loads = (\<lambda>s. None)\<rparr> (ascii ''Ocean Waves'')
        [ascii ''Ocean''] = 0"
  by (simp add: start_def iteration_def update_live_tree_def get_related_concepts_def
      init_explorer_def set_add_def query_ollama_def check_model_availability_def
      get_available_models_def parse_response_def py_find_def py_rfind_def py_slice_def
      slice_bound_def json_loads_def Let_def ascii_def py_strip_def py_isspace_def
      ascii_lower_def diversity_score_def py_split_def empty_graph_def add_node_def)

section \<open>The plain export\<close>



section \<open>The children kept when the height runs out\<close>

lemma py_slice_take:
  "0 \<le> k \<Longrightarrow> py_slice xs None (Some k) = take (nat k) xs"
  by (simp add: py_slice_def slice_bound_def Let_def min_def)

lemma py_slice_last:
  "0 < k \<Longrightarrow> py_slice xs (Some (- k)) None = drop (length xs - nat k) xs"
  by (auto simp: py_slice_def slice_bound_def Let_def nat_diff_distrib')

lemma py_slice_middle:
  assumes "0 \<le> a" "a \<le> b" "b \<le> int (length xs)"
  shows "py_slice xs (Some a) (Some b) = take (nat b - nat a) (drop (nat a) xs)"
proof -
  have "nat a \<le> length xs" "nat b \<le> length xs" using assms by linarith+
  then show ?thesis
    using assms by (simp add: py_slice_def slice_bound_def Let_def min_def)
qed

lemma sample_non_focus_thirds:
  assumes "0 < s" "s < int (length nf)"
  shows "sample_non_focus nf s =
     (let t = nat (max 1 (s div 3)); h = length nf div 2
      in take (nat s) (fromkeys [] (take t nf @ take (2 * (t div 2)) (drop (h - t div 2) nf)
           @ drop (length nf - t) nf)))"
proof -
  define t where "t = max 1 (s div 3)"
  define h where "h = int (length nf) div 2"
  have t: "0 < t" "t \<le> s" using assms(1) by (auto simp: t_def)
  have "t div 2 \<le> h"
    unfolding h_def using t assms(2) by (intro zdiv_mono1) auto
  then have a: "0 \<le> h - t div 2" by simp
  have "2 * h \<le> int (length nf)" unfolding h_def by simp
  then have b: "h + t div 2 \<le> int (length nf)" using \<open>t div 2 \<le> h\<close> by linarith
  have m: "py_slice nf (Some (h - t div 2)) (Some (h + t div 2))
      = take (nat (h + t div 2) - nat (h - t div 2)) (drop (nat (h - t div 2)) nf)"
    using a b t by (intro py_slice_middle) auto
  have k: "nat (t div 2) = nat t div 2"
    using t by (simp add: nat_div_distrib)
  have "nat (h + t div 2) - nat (h - t div 2) = nat ((h + t div 2) - (h - t div 2))"
    using a \<open>t div 2 \<le> h\<close> t by (intro nat_diff_distrib [symmetric]) auto
  also have "\<dots> = 2 * nat (t div 2)" by simp
  finally have n1: "nat (h + t div 2) - nat (h - t div 2) = 2 * (nat t div 2)"
    by (simp add: k)
  have "nat (h - t div 2) = nat h - nat (t div 2)"
    using \<open>t div 2 \<le> h\<close> t by (intro nat_diff_distrib) auto
  moreover have "nat h = length nf div 2"
    by (simp add: h_def nat_div_distrib)
  ultimately have n2: "nat (h - t div 2) = length nf div 2 - nat t div 2"
    by (simp add: k)
  have m': "py_slice nf (Some (h - t div 2)) (Some (h + t div 2))
      = take (2 * (nat t div 2)) (drop (length nf div 2 - nat t div 2) nf)"
    unfolding m n1 by (simp only: n2)
  have "sample_non_focus nf s = py_slice (fromkeys [] (py_slice nf None (Some t)
            @ py_slice nf (Some (h - t div 2)) (Some (h + t div 2))
            @ py_slice nf (Some (- t)) None)) None (Some s)"
    using assms by (simp add: sample_non_focus_def Let_def t_def h_def)
  also have "\<dots> = take (nat s) (fromkeys [] (take (nat t) nf
            @ take (2 * (nat t div 2)) (drop (length nf div 2 - nat t div 2) nf)
            @ drop (length nf - nat t) nf))"
    using t assms(1) by (simp add: py_slice_take py_slice_last m')
  finally show ?thesis by (simp add: Let_def t_def)
qed

lemma length_sample_non_focus:
  assumes "s < int (length nf)"
  shows "int (length (sample_non_focus nf s)) \<le> max 0 s"
proof (cases "0 < s")
  case True
  have "int (length (take (nat s) ys)) \<le> s" for ys :: "pystr list"
  proof -
    have "length (take (nat s) ys) \<le> nat s" by simp
    then have "int (length (take (nat s) ys)) \<le> int (nat s)"
      by (simp only: of_nat_le_iff)
    then show ?thesis using True by (simp del: length_take)
  qed
  then show ?thesis
    using True assms by (simp add: sample_non_focus_thirds Let_def del: length_take)
next
  case False
  then show ?thesis by (simp add: sample_non_focus_def)
qed

lemma length_filter_split:
  "length (filter P xs) + length (filter (\<lambda>x. \<not> P x) xs) = length xs"
  by (induction xs) auto

lemma limit_children_exceeding:
  assumes "r < int (length cs)" and "0 < r"
  shows "snd (limit_children fp r cs)"
    and "int (length (fst (limit_children fp r cs))) < r"
    and "int (length (filter (\<lambda>c. c \<in> set fp) cs)) < r \<Longrightarrow>
           fst (limit_children fp r cs)
           = filter (\<lambda>c. c \<in> set fp) cs
             @ sample_non_focus (filter (\<lambda>c. c \<notin> set fp) cs)
                 (r - int (length (filter (\<lambda>c. c \<in> set fp) cs)) - 1)"
    and "\<not> int (length (filter (\<lambda>c. c \<in> set fp) cs)) < r \<Longrightarrow>
           fst (limit_children fp r cs) = take (nat (r - 1)) (filter (\<lambda>c. c \<in> set fp) cs)"
    and "int (length (filter (\<lambda>c. c \<in> set fp) cs)) < r \<Longrightarrow>
           r - int (length (filter (\<lambda>c. c \<in> set fp) cs)) - 1
           < int (length (filter (\<lambda>c. c \<notin> set fp) cs))"
proof -
  define focus where "focus = filter (\<lambda>c. c \<in> set fp) cs"
  define nf where "nf = filter (\<lambda>c. c \<notin> set fp) cs"
  have len: "length focus + length nf = length cs"
    unfolding focus_def nf_def by (rule length_filter_split)
  have A: "fst (limit_children fp r cs) = focus @ sample_non_focus nf (r - int (length focus) - 1)"
    and Am: "snd (limit_children fp r cs)
        \<longleftrightarrow> length focus + length nf > length (focus @ sample_non_focus nf (r - int (length focus) - 1))"
    if "int (length focus) < r"
    using that assms(1) by (simp_all add: limit_children_def Let_def focus_def nf_def)
  have B: "fst (limit_children fp r cs) = take (nat (r - 1)) focus"
    and Bm: "snd (limit_children fp r cs)
        \<longleftrightarrow> length focus > length (take (nat (r - 1)) focus) \<or> nf \<noteq> []"
    if "\<not> int (length focus) < r"
    using that assms by (simp_all add: limit_children_def Let_def focus_def nf_def py_slice_take)
  have big: "r - int (length focus) - 1 < int (length nf)"
    using assms(1) len by linarith
  have sl: "int (length (sample_non_focus nf (r - int (length focus) - 1)))
      \<le> max 0 (r - int (length focus) - 1)"
    using big by (rule length_sample_non_focus)
  show "snd (limit_children fp r cs)"
  proof (cases "int (length focus) < r")
    case True
    then show ?thesis using Am [OF True] sl big by auto
  next
    case False
    have "nat (r - 1) < length focus"
      using False assms(2) by linarith
    then show ?thesis using Bm [OF False] by simp
  qed
  show "int (length (fst (limit_children fp r cs))) < r"
  proof (cases "int (length focus) < r")
    case True
    then show ?thesis using A [OF True] sl by simp
  next
    case False
    then show ?thesis using B [OF False] assms(2) by simp
  qed
  show "int (length (filter (\<lambda>c. c \<in> set fp) cs)) < r \<Longrightarrow>
           fst (limit_children fp r cs)
           = filter (\<lambda>c. c \<in> set fp) cs
             @ sample_non_focus (filter (\<lambda>c. c \<notin> set fp) cs)
                 (r - int (length (filter (\<lambda>c. c \<in> set fp) cs)) - 1)"
    using A by (simp add: focus_def nf_def)
  show "\<not> int (length (filter (\<lambda>c. c \<in> set fp) cs)) < r \<Longrightarrow>
           fst (limit_children fp r cs) = take (nat (r - 1)) (filter (\<lambda>c. c \<in> set fp) cs)"
    using B by (simp add: focus_def)
  show "int (length (filter (\<lambda>c. c \<in> set fp) cs)) < r \<Longrightarrow>
           r - int (length (filter (\<lambda>c. c \<in> set fp) cs)) - 1
           < int (length (filter (\<lambda>c. c \<notin> set fp) cs))"
    using big by (simp add: focus_def nf_def)
qed

lemma length_order_children: "length (order_children fp cs) = length cs"
  by (simp add: order_children_def)



lemma generate_ascii_tree_leaf:
  assumes "int lines_used < available_height" and "node \<notin> visited"
    and "\<not> beyond max_depth current_depth" and "successors (graph self) node = []"
  shows "generate_ascii_tree self node prefix is_last visited focus_paths max_depth
           current_depth available_height lines_used
         = color_node self node prefix is_last current_depth @ [10]"
proof -
  have h: "\<not> available_height \<le> int lines_used" using assms(1) by simp
  have nv: "\<not> (node \<in> visited \<or> beyond max_depth current_depth)" using assms(2,3) by simp
  show ?thesis
    by (subst generate_ascii_tree.simps) (simp only: h nv assms(4) if_False if_True Let_def simp_thms)
qed

lemma generate_ascii_tree_inner:
  assumes "int (lines_used + 1) < available_height" and "node \<notin> visited"
    and "\<not> beyond max_depth current_depth" and "successors (graph self) node \<noteq> []"
    and "limit_children focus_paths (available_height - int (lines_used + 1))
           (order_children focus_paths (successors (graph self) node)) = (kept, has_more)"
    and "draw_children self kept has_more (extend_prefix prefix is_last) (insert node visited)
           focus_paths max_depth current_depth available_height
           (color_node self node prefix is_last current_depth @ [10]) (lines_used + 1)
         = (result, lines_used')"
  shows "generate_ascii_tree self node prefix is_last visited focus_paths max_depth
           current_depth available_height lines_used
         = (if has_more \<and> int lines_used' < available_height
            then result @ more_nodes_line (extend_prefix prefix is_last) else result)"
proof -
  have h: "\<not> available_height \<le> int lines_used" using assms(1) by simp
  have nv: "\<not> (node \<in> visited \<or> beyond max_depth current_depth)" using assms(2,3) by simp
  have ne: "\<not> (successors (graph self) node = [] \<or> available_height \<le> int (lines_used + 1))"
    using assms(1,4) by simp
  show ?thesis
    by (subst generate_ascii_tree.simps)
      (simp only: h nv ne assms(5,6) if_False Let_def fst_conv snd_conv)
qed

lemma draw_children_single:
  assumes "generate_ascii_tree self child next_prefix (\<not> has_more) visited focus_paths
             max_depth (current_depth + 1) available_height lines_used = child_tree"
  shows "draw_children self [child] has_more next_prefix visited focus_paths max_depth
           current_depth available_height result lines_used
         = (result @ child_tree, lines_used + count_newlines child_tree)"
  using assms by (simp add: Let_def)



text \<open>
  The branch of line 315. With the focus path \<open>Focus, Root\<close>, the children \<open>Focus\<close> and
  \<open>Other\<close> of \<open>Root\<close> and a height of 2, one line remains below the root and the focus
  children are not fewer than that. The code keeps \<open>focus_children[:0]\<close>, no child: the text
  is the root and the "more nodes" line, and the focus child is not drawn, although the
  comments on lines 282, 286 and 314 say that the nodes of the focus path are always
  included.
\<close>

lemma focus_child_dropped_at_last_line:
  "generate_ascii_tree
      ((init_explorer (ascii ''llama3'') (80, 12))
         \<lparr>graph := \<lparr>nodes = [ascii ''Root'', ascii ''Focus'', ascii ''Other''],
             edges = [(ascii ''Root'', ascii ''Focus''), (ascii ''Root'', ascii ''Other'')]\<rparr>\<rparr>)
      (ascii ''Root'') [] True {} [ascii ''Focus'', ascii ''Root''] (Some 3) 0 2 0
    = color_node
        ((init_explorer (ascii ''llama3'') (80, 12))
           \<lparr>graph := \<lparr>nodes = [ascii ''Root'', ascii ''Focus'', ascii ''Other''],
               edges = [(ascii ''Root'', ascii ''Focus''), (ascii ''Root'', ascii ''Other'')]\<rparr>\<rparr>)
        (ascii ''Root'') [] True 0 @ [10]
      @ more_nodes_line (extend_prefix [] True)"
proof -
  let ?f = "(init_explorer (ascii ''llama3'') (80, 12))
         \<lparr>graph := \<lparr>nodes = [ascii ''Root'', ascii ''Focus'', ascii ''Other''],
             edges = [(ascii ''Root'', ascii ''Focus''), (ascii ''Root'', ascii ''Other'')]\<rparr>\<rparr>"
  let ?p1 = "extend_prefix [] True"
  have fk: "limit_children [ascii ''Focus'', ascii ''Root''] (2 - int (0 + 1))
      (order_children [ascii ''Focus'', ascii ''Root''] (successors (graph ?f) (ascii ''Root'')))
      = ([], True)"
    by (simp add: successors_def init_explorer_def limit_children_def order_children_def
        py_slice_def slice_bound_def Let_def ascii_def)
  have "generate_ascii_tree ?f (ascii ''Root'') [] True {}
      [ascii ''Focus'', ascii ''Root''] (Some 3) 0 2 0
      = (if True \<and> int (0 + 1) < 2
         then (color_node ?f (ascii ''Root'') [] True 0 @ [10]) @ more_nodes_line ?p1
         else color_node ?f (ascii ''Root'') [] True 0 @ [10])"
    by (rule generate_ascii_tree_inner [OF _ _ _ _ fk draw_children.simps(1)])
      (simp_all add: beyond_def successors_def init_explorer_def ascii_def)
  then show ?thesis
    by simp
qed

end
